theory Spec2Isabelle
  imports Main "HOL-Library.Multiset" "HOL-Library.List_Lexorder" "HOL-Library.Char_ord"
begin

section \<open>Values of server.py\<close>

text \<open>
  The second component of the tuple returned by \<open>fetch_status\<close> is either the integer
  \<open>response.status\<close> or one of the strings \<open>"error"\<close>, \<open>"timeout"\<close>, \<open>"error: ..."\<close>.
\<close>

datatype status = SInt int | SStr string

text \<open>
  A raised Python exception, seen through the three tests the \<open>except\<close> clauses of
  \<open>fetch_status\<close> make (\<open>isinstance\<close> of \<open>aiohttp.ClientError\<close>, of
  \<open>asyncio.TimeoutError\<close>, of \<open>Exception\<close>) and through \<open>str(e)\<close>.
\<close>

record exn =
  is_client_error :: bool
  is_timeout_error :: bool
  is_exception :: bool
  message :: string

text \<open>How the body of \<open>async with session.get(url, timeout=5) as response\<close> ends.\<close>

datatype request_end = Response int | Raises exn

datatype error = Propagated exn | KeyError string

type_synonym report = "(string \<times> string list) list"

section \<open>fetch_status\<close>

text \<open>
  The state threaded through is the list of URLs on which \<open>session.get\<close> has been called.
  The semaphore only delays the call; it does not change the value returned.
\<close>

definition fetch_status ::
  "string \<Rightarrow> request_end \<Rightarrow> string list \<Rightarrow> (error + string \<times> status) \<times> string list" where
  "fetch_status url ending log =
     ((case ending of
         Response n \<Rightarrow> Inr (url, SInt n)
       | Raises e \<Rightarrow>
           if is_client_error e then Inr (url, SStr ''error'')
           else if is_timeout_error e then Inr (url, SStr ''timeout'')
           else if is_exception e then Inr (url, SStr (''error: '' @ message e))
           else Inl (Propagated e)),
      log @ [url])"

section \<open>check_urls\<close>

text \<open>
  \<open>tasks = [fetch_status(session, url, semaphore) for url in urls]\<close> and
  \<open>asyncio.gather(*tasks)\<close>: one call per list element, the results in the order of the
  list; an exception that leaves a task leaves \<open>gather\<close>. Each URL comes paired with the
  way its request ends.
\<close>

fun gather ::
  "(string \<times> request_end) list \<Rightarrow> string list \<Rightarrow> (error + (string \<times> status) list) \<times> string list" where
  "gather [] log = (Inr [], log)"
| "gather ((url, ending) # ps) log =
     (case fetch_status url ending log of
        (Inl e, log') \<Rightarrow> (Inl e, log')
      | (Inr r, log') \<Rightarrow>
          (case gather ps log' of
             (Inl e, log'') \<Rightarrow> (Inl e, log'')
           | (Inr rs, log'') \<Rightarrow> (Inr (r # rs), log'')))"

definition status_results_init :: report where
  "status_results_init =
     [(''200'', []), (''301_302'', []), (''403'', []), (''404'', []), (''500+'', []), (''error'', [])]"

text \<open>\<open>status_results[key].append(url)\<close>; a missing key raises \<open>KeyError\<close>.\<close>

fun dict_append :: "string \<Rightarrow> string \<Rightarrow> report \<Rightarrow> error + report" where
  "dict_append k url [] = Inl (KeyError k)"
| "dict_append k url ((k', us) # rest) =
     (if k' = k then Inr ((k', us @ [url]) # rest)
      else (case dict_append k url rest of
              Inl e \<Rightarrow> Inl e
            | Inr rest' \<Rightarrow> Inr ((k', us) # rest')))"

text \<open>The body of \<open>for url, status in results\<close>, in the order of its \<open>if\<close>/\<open>elif\<close> chain.\<close>

fun categorize_step :: "report \<Rightarrow> string \<times> status \<Rightarrow> error + report" where
  "categorize_step rep (url, status) =
     (if status = SInt 200 then dict_append ''200'' url rep
      else if status \<in> set [SInt 301, SInt 302] then dict_append ''301_302'' url rep
      else if status = SInt 403 then dict_append ''403'' url rep
      else if status = SInt 404 then dict_append ''404'' url rep
      else if (case status of SInt n \<Rightarrow> n \<ge> 500 | SStr _ \<Rightarrow> False)
        then dict_append ''500+'' url rep
      else dict_append ''error'' url rep)"

fun categorize_loop :: "(string \<times> status) list \<Rightarrow> report \<Rightarrow> error + report" where
  "categorize_loop [] rep = Inr rep"
| "categorize_loop (r # rs) rep =
     (case categorize_step rep r of
        Inl e \<Rightarrow> Inl e
      | Inr rep' \<Rightarrow> categorize_loop rs rep')"

definition categorize :: "(string \<times> status) list \<Rightarrow> error + report" where
  "categorize results = categorize_loop results status_results_init"

definition check_urls ::
  "(string \<times> request_end) list \<Rightarrow> string list \<Rightarrow> (error + report) \<times> string list" where
  "check_urls probes log =
     (case gather probes log of
        (Inl e, log') \<Rightarrow> (Inl e, log')
      | (Inr results, log') \<Rightarrow> (categorize results, log'))"

section \<open>extract_urls: removing duplicates\<close>

text \<open>
  \<open>unique_urls = list(set(urls))\<close>. A Python set of strings holds each string once, compared
  by exact equality; the order in which \<open>list\<close> iterates over it is not fixed by the
  language, so the iteration is a parameter \<open>list_of\<close>.
\<close>

definition unique_urls :: "(string set \<Rightarrow> string list) \<Rightarrow> string list \<Rightarrow> string list" where
  "unique_urls list_of urls = list_of (set urls)"

section \<open>generate_csv\<close>

text \<open>
  \<open>csv.writer(output)\<close> with the default dialect: fields separated by a comma, a record
  ended by CR LF, a field put in double quotes (its own double quotes doubled) exactly when it
  holds a comma, a double quote, CR or LF. A record that would be empty although the row has
  a field (one empty field) is written as two double quotes.
\<close>

definition csv_special :: "char \<Rightarrow> bool" where
  "csv_special c \<longleftrightarrow> c = CHR '','' \<or> c = CHR 0x22 \<or> c = CHR 0x0D \<or> c = CHR 0x0A"

definition csv_field :: "string \<Rightarrow> string" where
  "csv_field f =
     (if list_ex csv_special f
      then [CHR 0x22] @ concat (map (\<lambda>c. if c = CHR 0x22 then [c, c] else [c]) f) @ [CHR 0x22]
      else f)"

fun csv_join :: "string list \<Rightarrow> string" where
  "csv_join [] = []"
| "csv_join [f] = csv_field f"
| "csv_join (f # g # fs) = csv_field f @ '','' @ csv_join (g # fs)"

text \<open>\<open>writer.writerow(row)\<close> on the buffer \<open>output\<close> of the \<open>StringIO\<close>.\<close>

definition writerow :: "string list \<Rightarrow> string \<Rightarrow> string" where
  "writerow row output =
     output @ (if row \<noteq> [] \<and> csv_join row = [] then [CHR 0x22, CHR 0x22] else csv_join row) @
     [CHR 0x0D, CHR 0x0A]"

text \<open>The inner loop \<open>for url in urls\<close> and the outer loop \<open>for status, urls in data.items()\<close>.\<close>

fun write_urls :: "string \<Rightarrow> string list \<Rightarrow> string \<Rightarrow> string" where
  "write_urls status [] output = output"
| "write_urls status (url # urls) output = write_urls status urls (writerow [url, status] output)"

fun write_items :: "report \<Rightarrow> string \<Rightarrow> string" where
  "write_items [] output = output"
| "write_items ((status, urls) # items) output = write_items items (write_urls status urls output)"

definition generate_csv :: "report \<Rightarrow> string" where
  "generate_csv data = write_items data (writerow [''URL'', ''Status''] [])"

section \<open>generate_json\<close>

text \<open>
  \<open>json.dumps(data, indent=4)\<close> for a dictionary from strings to lists of strings. Here a
  Python string is the list of its code points, any of 0 to 0x10FFFF, surrogates included; the
  text written is ASCII. \<open>code_points\<close> reads a string literal as such a list.
\<close>

type_synonym unicode = "nat list"

type_synonym json_report = "(unicode \<times> unicode list) list"

definition code_points :: "string \<Rightarrow> unicode" where
  "code_points s = map of_char s"

text \<open>
  With \<open>ensure_ascii\<close> (the default) a string is written between double quotes: the double
  quote, the backslash and the control characters with a short form are written with a
  backslash, a character from the space to the tilde as itself, any other code point below
  0x10000 as \<open>\uXXXX\<close> with four lower-case hexadecimal digits, and a code point from 0x10000
  on as the two escapes of its surrogate pair. The bit operations of the encoder are written as
  arithmetic: a shift by ten is a division by 1024, and the masks and the unions with 0xD800 and
  0xDC00 are a remainder modulo 1024 and a sum.
\<close>

definition hex_digit :: "nat \<Rightarrow> char" where
  "hex_digit d = (if d < 10 then char_of (48 + d) else char_of (87 + d))"

definition hex_escape :: "nat \<Rightarrow> string" where
  "hex_escape n =
     [CHR 0x5C, CHR ''u'', hex_digit (n div 4096), hex_digit (n div 256 mod 16),
      hex_digit (n div 16 mod 16), hex_digit (n mod 16)]"

definition escape_char :: "nat \<Rightarrow> string" where
  "escape_char c =
     (if c = 0x22 then [CHR 0x5C, CHR 0x22]
      else if c = 0x5C then [CHR 0x5C, CHR 0x5C]
      else if c = 0x0A then [CHR 0x5C, CHR ''n'']
      else if c = 0x0D then [CHR 0x5C, CHR ''r'']
      else if c = 0x09 then [CHR 0x5C, CHR ''t'']
      else if c = 0x0C then [CHR 0x5C, CHR ''f'']
      else if c = 0x08 then [CHR 0x5C, CHR ''b'']
      else if 0x20 \<le> c \<and> c \<le> 0x7E then [char_of c]
      else if c < 0x10000 then hex_escape c
      else hex_escape (0xD800 + (c - 0x10000) div 1024 mod 1024) @
           hex_escape (0xDC00 + (c - 0x10000) mod 1024))"

definition encode_basestring_ascii :: "unicode \<Rightarrow> string" where
  "encode_basestring_ascii s = [CHR 0x22] @ concat (map escape_char s) @ [CHR 0x22]"

text \<open>
  With an indent, every item starts on a new line indented by four spaces per level; the items
  are separated by a comma, key and value by a colon and a space; an empty list is \<open>[]\<close> and
  an empty dictionary \<open>{}\<close>.
\<close>

definition newline_indent :: "nat \<Rightarrow> string" where
  "newline_indent level = CHR 0x0A # replicate (4 * level) CHR '' ''"

fun join_chunks :: "string \<Rightarrow> string list \<Rightarrow> string" where
  "join_chunks sep [] = []"
| "join_chunks sep [x] = x"
| "join_chunks sep (x # y # ys) = x @ sep @ join_chunks sep (y # ys)"

definition iterencode_list :: "unicode list \<Rightarrow> nat \<Rightarrow> string" where
  "iterencode_list lst level =
     (if lst = [] then ''[]''
      else ''['' @ newline_indent (level + 1) @
           join_chunks ('','' @ newline_indent (level + 1)) (map encode_basestring_ascii lst) @
           newline_indent level @ '']'')"

definition encode_item :: "nat \<Rightarrow> unicode \<times> unicode list \<Rightarrow> string" where
  "encode_item level item =
     encode_basestring_ascii (fst item) @ '': '' @ iterencode_list (snd item) level"

definition iterencode_dict :: "json_report \<Rightarrow> nat \<Rightarrow> string" where
  "iterencode_dict dct level =
     (if dct = [] then ''{}''
      else ''{'' @ newline_indent (level + 1) @
           join_chunks ('','' @ newline_indent (level + 1))
             (map (encode_item (level + 1)) dct) @
           newline_indent level @ ''}'')"

definition generate_json :: "json_report \<Rightarrow> string" where
  "generate_json data = iterencode_dict data 0"

section \<open>Auxiliary notions used in the statements\<close>

text \<open>
  The bucket table as the specification words it: the bucket name of an outcome.
  A status code is \<open>SInt n\<close>; Timeout and NetworkError are the string statuses.
\<close>

fun spec_bucket :: "status \<Rightarrow> string" where
  "spec_bucket (SInt n) =
     (if n = 200 then ''200''
      else if n = 301 \<or> n = 302 then ''301_302''
      else if n = 403 then ''403''
      else if n = 404 then ''404''
      else if n \<ge> 500 then ''500+''
      else ''error'')"
| "spec_bucket (SStr s) = ''error''"

definition bucket_keys :: "string list" where
  "bucket_keys = [''200'', ''301_302'', ''403'', ''404'', ''500+'', ''error'']"

text \<open>The URLs of the results whose status the table sends to bucket \<open>k\<close>, in input order.\<close>

definition urls_of_bucket :: "(string \<times> status) list \<Rightarrow> string \<Rightarrow> string list" where
  "urls_of_bucket results k = map fst (filter (\<lambda>r. spec_bucket (snd r) = k) results)"

text \<open>
  An ending that \<open>fetch_status\<close> turns into a returned tuple: a response, or an exception
  that one of the three \<open>except\<close> clauses matches.
\<close>

definition caught :: "request_end \<Rightarrow> bool" where
  "caught ending =
     (case ending of Response n \<Rightarrow> True
      | Raises e \<Rightarrow> is_client_error e \<or> is_timeout_error e \<or> is_exception e)"

section \<open>Reading the CSV text back\<close>

text \<open>
  A reader of comma-separated records ended by CR LF, with fields in double quotes where the
  writer quotes them (RFC 4180). It is used to say which rows a text consists of.
\<close>

definition prepend :: "char \<Rightarrow> (string \<times> string) option \<Rightarrow> (string \<times> string) option" where
  "prepend c res = (case res of None \<Rightarrow> None | Some (s, rest) \<Rightarrow> Some (c # s, rest))"

fun read_quoted :: "string \<Rightarrow> (string \<times> string) option" where
  "read_quoted [] = None"
| "read_quoted (c # cs) =
     (if c = CHR 0x22 then
        (case cs of
           [] \<Rightarrow> Some ([], [])
         | d # ds \<Rightarrow> if d = CHR 0x22 then prepend (CHR 0x22) (read_quoted ds) else Some ([], cs))
      else prepend c (read_quoted cs))"

fun read_plain :: "string \<Rightarrow> string \<times> string" where
  "read_plain [] = ([], [])"
| "read_plain (c # cs) =
     (if c = CHR '','' \<or> c = CHR 0x0D \<or> c = CHR 0x0A then ([], c # cs)
      else (case read_plain cs of (f, r) \<Rightarrow> (c # f, r)))"

definition read_field :: "string \<Rightarrow> (string \<times> string) option" where
  "read_field s =
     (case s of
        [] \<Rightarrow> Some ([], [])
      | c # cs \<Rightarrow> if c = CHR 0x22 then read_quoted cs else Some (read_plain s))"

lemma read_quoted_shorter: "read_quoted s = Some (f, r) \<Longrightarrow> length r \<le> length s"
proof (induction s arbitrary: f r rule: read_quoted.induct)
  case 1
  then show ?case by simp
next
  case (2 c cs)
  then show ?case
    by (fastforce simp: prepend_def split: if_splits list.splits option.splits)
qed

lemma read_plain_shorter: "read_plain s = (f, r) \<Longrightarrow> length r \<le> length s"
  by (induction s arbitrary: f r) (fastforce split: if_splits prod.splits)+

lemma read_field_shorter: "read_field s = Some (f, r) \<Longrightarrow> length r \<le> length s"
proof (cases s)
  case Nil
  assume "read_field s = Some (f, r)"
  with Nil show ?thesis by (simp add: read_field_def)
next
  case (Cons c cs)
  assume a: "read_field s = Some (f, r)"
  show ?thesis
  proof (cases "c = CHR 0x22")
    case True
    with a Cons have "read_quoted cs = Some (f, r)" by (simp add: read_field_def)
    from read_quoted_shorter [OF this] Cons show ?thesis by simp
  next
    case False
    with a Cons have "read_plain s = (f, r)" by (simp add: read_field_def)
    then show ?thesis by (rule read_plain_shorter)
  qed
qed

function read_record :: "string \<Rightarrow> (string list \<times> string) option" where
  "read_record s =
     (case read_field s of
        None \<Rightarrow> None
      | Some (f, r) \<Rightarrow>
          (case r of
             [] \<Rightarrow> None
           | c # r1 \<Rightarrow>
               if c = CHR '','' then
                 (case read_record r1 of
                    None \<Rightarrow> None
                  | Some (fs, t) \<Rightarrow> Some (f # fs, t))
               else if c = CHR 0x0D then
                 (case r1 of
                    [] \<Rightarrow> None
                  | d # r2 \<Rightarrow> if d = CHR 0x0A then Some ([f], r2) else None)
               else None))"
  by pat_completeness auto
termination
  by (relation "measure length") (auto dest: read_field_shorter)

declare read_record.simps [simp del]

lemma read_record_shorter: "read_record s = Some (row, t) \<Longrightarrow> length t < length s"
proof (induction s arbitrary: row t rule: read_record.induct)
  case (1 s)
  from "1.prems" obtain f r c r1 where f: "read_field s = Some (f, r)" and r: "r = c # r1"
    and rest: "(c = CHR '','' \<and> (\<exists>fs. read_record r1 = Some (fs, t))) \<or>
               (c = CHR 0x0D \<and> (\<exists>d. r1 = d # t))"
    by (subst (asm) read_record.simps) (auto split: option.splits list.splits if_splits)
  have l: "length r1 < length s"
    using read_field_shorter [OF f] by (simp add: r)
  from rest show ?case
  proof
    assume "c = CHR '','' \<and> (\<exists>fs. read_record r1 = Some (fs, t))"
    then obtain fs where c: "c = CHR '',''" and p: "read_record r1 = Some (fs, t)" by blast
    have "length t < length r1"
      using "1.IH" f r c p by auto
    with l show ?thesis by simp
  next
    assume "c = CHR 0x0D \<and> (\<exists>d. r1 = d # t)"
    with l show ?thesis by auto
  qed
qed

function read_records :: "string \<Rightarrow> string list list option" where
  "read_records s =
     (if s = [] then Some []
      else (case read_record s of
              None \<Rightarrow> None
            | Some (row, r) \<Rightarrow>
                (case read_records r of
                   None \<Rightarrow> None
                 | Some rows \<Rightarrow> Some (row # rows))))"
  by pat_completeness auto
termination
  by (relation "measure length") (auto dest: read_record_shorter)

declare read_records.simps [simp del]

section \<open>Decoding the JSON text\<close>

text \<open>
  A decoder for JSON texts (RFC 8259) that are an object whose values are arrays of strings,
  decoding strings as \<open>json.loads\<close> does: white space is skipped between the tokens, an
  unescaped control character in a string is refused, every escape of the grammar is decoded,
  and the escape of a high surrogate directly followed by the escape of a low surrogate is
  decoded as the one code point of the pair.
\<close>

definition is_ws :: "char \<Rightarrow> bool" where
  "is_ws c \<longleftrightarrow> c = CHR '' '' \<or> c = CHR 0x09 \<or> c = CHR 0x0A \<or> c = CHR 0x0D"

fun skip_ws :: "string \<Rightarrow> string" where
  "skip_ws [] = []"
| "skip_ws (c # cs) = (if is_ws c then skip_ws cs else c # cs)"

definition hex_value :: "char \<Rightarrow> nat option" where
  "hex_value c =
     (let n = (of_char c :: nat) in
      if 48 \<le> n \<and> n \<le> 57 then Some (n - 48)
      else if 97 \<le> n \<and> n \<le> 102 then Some (n - 87)
      else if 65 \<le> n \<and> n \<le> 70 then Some (n - 55)
      else None)"

definition hex4 :: "char \<Rightarrow> char \<Rightarrow> char \<Rightarrow> char \<Rightarrow> nat option" where
  "hex4 a b c d =
     (case (hex_value a, hex_value b, hex_value c, hex_value d) of
        (Some w, Some x, Some y, Some z) \<Rightarrow> Some (((w * 16 + x) * 16 + y) * 16 + z)
      | _ \<Rightarrow> None)"

definition unescape :: "char \<Rightarrow> nat option" where
  "unescape e =
     (if e = CHR 0x22 then Some 0x22
      else if e = CHR 0x5C then Some 0x5C
      else if e = CHR ''/'' then Some 0x2F
      else if e = CHR ''b'' then Some 0x08
      else if e = CHR ''f'' then Some 0x0C
      else if e = CHR ''n'' then Some 0x0A
      else if e = CHR ''r'' then Some 0x0D
      else if e = CHR ''t'' then Some 0x09
      else None)"

definition high_surrogate :: "nat \<Rightarrow> bool" where
  "high_surrogate n \<longleftrightarrow> 0xD800 \<le> n \<and> n \<le> 0xDBFF"

definition low_surrogate :: "nat \<Rightarrow> bool" where
  "low_surrogate n \<longleftrightarrow> 0xDC00 \<le> n \<and> n \<le> 0xDFFF"

text \<open>The escape of a low surrogate at the head of the text, if there is one.\<close>

definition low_surrogate_ahead :: "string \<Rightarrow> (nat \<times> string) option" where
  "low_surrogate_ahead cs =
     (case cs of
        [] \<Rightarrow> None
      | bs # r1 \<Rightarrow>
          if bs \<noteq> CHR 0x5C then None
          else (case r1 of
                  [] \<Rightarrow> None
                | u # r2 \<Rightarrow>
                    if u \<noteq> CHR ''u'' then None
                    else (case r2 of
                            a # b # c # d # rest \<Rightarrow>
                              (case hex4 a b c d of
                                 None \<Rightarrow> None
                               | Some uni2 \<Rightarrow> if low_surrogate uni2 then Some (uni2, rest) else None)
                          | _ \<Rightarrow> None)))"

text \<open>
  The escape after a backslash: its code point and the rest of the text. After a high surrogate
  that no low surrogate follows, the next escape is left to the next step.
\<close>

definition decode_escape :: "string \<Rightarrow> (nat \<times> string) option" where
  "decode_escape s =
     (case s of
        [] \<Rightarrow> None
      | e # cs \<Rightarrow>
          if e \<noteq> CHR ''u'' then (case unescape e of None \<Rightarrow> None | Some c \<Rightarrow> Some (c, cs))
          else (case cs of
                  a # b # c # d # rest \<Rightarrow>
                    (case hex4 a b c d of
                       None \<Rightarrow> None
                     | Some uni \<Rightarrow>
                         if high_surrogate uni then
                           (case low_surrogate_ahead rest of
                              None \<Rightarrow> Some (uni, rest)
                            | Some (uni2, rest2) \<Rightarrow>
                                Some (0x10000 + ((uni - 0xD800) * 1024 + (uni2 - 0xDC00)), rest2))
                         else Some (uni, rest))
                | _ \<Rightarrow> None))"

definition prepend_code_point :: "nat \<Rightarrow> (unicode \<times> string) option \<Rightarrow> (unicode \<times> string) option" where
  "prepend_code_point c res = (case res of None \<Rightarrow> None | Some (s, rest) \<Rightarrow> Some (c # s, rest))"

lemma low_surrogate_ahead_shorter:
  "low_surrogate_ahead cs = Some (n, rest) \<Longrightarrow> length rest < length cs"
  by (auto simp: low_surrogate_ahead_def split: list.splits if_splits option.splits)

lemma decode_escape_shorter:
  "decode_escape s = Some (n, rest) \<Longrightarrow> length rest < length s"
  by (auto simp: decode_escape_def split: list.splits if_splits option.splits
           dest!: low_surrogate_ahead_shorter)

function scanstring :: "string \<Rightarrow> (unicode \<times> string) option" where
  "scanstring [] = None"
| "scanstring (c # cs) =
     (if c = CHR 0x22 then Some ([], cs)
      else if c = CHR 0x5C then
        (case decode_escape cs of
           None \<Rightarrow> None
         | Some (uni, rest) \<Rightarrow> prepend_code_point uni (scanstring rest))
      else if (of_char c :: nat) < 0x20 then None
      else prepend_code_point (of_char c) (scanstring cs))"
  by pat_completeness auto
termination
  by (relation "measure length") (auto dest: decode_escape_shorter)

declare scanstring.simps [simp del]

lemma scanstring_shorter: "scanstring s = Some (x, r) \<Longrightarrow> length r < length s"
proof (induction s arbitrary: x r rule: scanstring.induct)
  case 1
  then show ?case by (simp add: scanstring.simps)
next
  case (2 c cs)
  show ?case
  proof (cases "c = CHR 0x22")
    case True
    with "2.prems" show ?thesis by (simp add: scanstring.simps)
  next
    case nq: False
    show ?thesis
    proof (cases "c = CHR 0x5C")
      case True
      with "2.prems" nq obtain uni rest y where d: "decode_escape cs = Some (uni, rest)"
        and s: "scanstring rest = Some (y, r)"
        by (auto simp: scanstring.simps prepend_code_point_def split: option.splits)
      have "length r < length rest"
        using nq True d s "2.IH"(1) by auto
      moreover have "length rest < length cs" using d by (rule decode_escape_shorter)
      ultimately show ?thesis by simp
    next
      case False
      with "2.prems" nq obtain y where low: "\<not> (of_char c :: nat) < 0x20" and s: "scanstring cs = Some (y, r)"
        by (auto simp: scanstring.simps prepend_code_point_def split: option.splits if_splits)
      have "length r < length cs"
        using nq False low s "2.IH"(2) by auto
      then show ?thesis by simp
    qed
  qed
qed

lemma skip_ws_length: "length (skip_ws s) \<le> length s"
  by (induction s) auto

lemma after_skip_ws_shorter:
  "scanstring r = Some (x, r1) \<Longrightarrow> skip_ws r1 = d # r2 \<Longrightarrow> length (skip_ws r2) < Suc (length r)"
proof -
  assume a: "scanstring r = Some (x, r1)" and b: "skip_ws r1 = d # r2"
  have "length (skip_ws r2) \<le> length r2" by (rule skip_ws_length)
  also have "length r2 < length (skip_ws r1)" by (simp add: b)
  also have "\<dots> \<le> length r1" by (rule skip_ws_length)
  also have "\<dots> < length r" using a by (rule scanstring_shorter)
  finally show ?thesis by simp
qed

function parse_items :: "string \<Rightarrow> (unicode list \<times> string) option" where
  "parse_items [] = None"
| "parse_items (c # r) =
     (if c \<noteq> CHR 0x22 then None
      else (case scanstring r of
              None \<Rightarrow> None
            | Some (x, r1) \<Rightarrow>
                (case skip_ws r1 of
                   [] \<Rightarrow> None
                 | d # r2 \<Rightarrow>
                     if d = CHR '','' then
                       (case parse_items (skip_ws r2) of
                          None \<Rightarrow> None
                        | Some (xs, t) \<Rightarrow> Some (x # xs, t))
                     else if d = CHR '']'' then Some ([x], r2)
                     else None)))"
  by pat_completeness auto
termination
  by (relation "measure length") (auto dest: after_skip_ws_shorter)

definition parse_array :: "string \<Rightarrow> (unicode list \<times> string) option" where
  "parse_array s =
     (case s of
        [] \<Rightarrow> None
      | c # r \<Rightarrow>
          if c \<noteq> CHR ''['' then None
          else (case skip_ws r of
                  [] \<Rightarrow> None
                | d # r1 \<Rightarrow> if d = CHR '']'' then Some ([], r1) else parse_items (d # r1)))"

lemma parse_items_shorter: "parse_items s = Some (xs, t) \<Longrightarrow> length t < length s"
proof (induction s arbitrary: xs t rule: parse_items.induct)
  case 1
  then show ?case by simp
next
  case (2 c r)
  from "2.prems" obtain x r1 d r2 where c: "c = CHR 0x22" and s: "scanstring r = Some (x, r1)"
    and w: "skip_ws r1 = d # r2"
    and rest: "(d = CHR '','' \<and> (\<exists>ys. parse_items (skip_ws r2) = Some (ys, t))) \<or> (d = CHR '']'' \<and> t = r2)"
    by (auto split: if_splits option.splits list.splits)
  have l: "length (skip_ws r2) < Suc (length r)"
    using s w by (rule after_skip_ws_shorter)
  have l2: "length r2 < length r"
  proof -
    have "length r2 < length (skip_ws r1)" by (simp add: w)
    also have "\<dots> \<le> length r1" by (rule skip_ws_length)
    also have "\<dots> < length r" using s by (rule scanstring_shorter)
    finally show ?thesis .
  qed
  from rest show ?case
  proof
    assume "d = CHR '','' \<and> (\<exists>ys. parse_items (skip_ws r2) = Some (ys, t))"
    then obtain ys where d: "d = CHR '',''" and p: "parse_items (skip_ws r2) = Some (ys, t)" by blast
    have "length t < length (skip_ws r2)"
      using "2.IH" c s w d p by auto
    with l show ?thesis by simp
  next
    assume "d = CHR '']'' \<and> t = r2"
    with l2 show ?thesis by simp
  qed
qed

lemma parse_array_shorter: "parse_array s = Some (xs, t) \<Longrightarrow> length t < length s"
proof -
  assume a: "parse_array s = Some (xs, t)"
  then obtain c r d r1 where s: "s = c # r" and w: "skip_ws r = d # r1"
    and rest: "(d = CHR '']'' \<and> t = r1) \<or> parse_items (d # r1) = Some (xs, t)"
    by (auto simp: parse_array_def split: list.splits if_splits)
  have "length (d # r1) \<le> length r"
    using skip_ws_length [of r] by (simp add: w)
  moreover from rest have "length t < length (d # r1)"
  proof
    assume "d = CHR '']'' \<and> t = r1"
    then show ?thesis by simp
  next
    assume "parse_items (d # r1) = Some (xs, t)"
    then show ?thesis by (rule parse_items_shorter)
  qed
  ultimately show ?thesis by (simp add: s)
qed

lemma member_rest_shorter:
  assumes "scanstring r = Some (k, r1)" and "skip_ws r1 = d # r2"
    and "parse_array (skip_ws r2) = Some (v, r3)" and "skip_ws r3 = e # r4"
  shows "length (skip_ws r4) < Suc (length r)"
proof -
  have "length (skip_ws r4) \<le> length r4" by (rule skip_ws_length)
  also have "length r4 < length (skip_ws r3)" by (simp add: assms(4))
  also have "\<dots> \<le> length r3" by (rule skip_ws_length)
  also have "\<dots> < length (skip_ws r2)" using assms(3) by (rule parse_array_shorter)
  also have "\<dots> \<le> length r2" by (rule skip_ws_length)
  also have "length r2 < length (skip_ws r1)" by (simp add: assms(2))
  also have "\<dots> \<le> length r1" by (rule skip_ws_length)
  also have "\<dots> < length r" using assms(1) by (rule scanstring_shorter)
  finally show ?thesis by simp
qed

function parse_members :: "string \<Rightarrow> (json_report \<times> string) option" where
  "parse_members [] = None"
| "parse_members (c # r) =
     (if c \<noteq> CHR 0x22 then None
      else (case scanstring r of
              None \<Rightarrow> None
            | Some (k, r1) \<Rightarrow>
                (case skip_ws r1 of
                   [] \<Rightarrow> None
                 | d # r2 \<Rightarrow>
                     if d \<noteq> CHR '':'' then None
                     else (case parse_array (skip_ws r2) of
                             None \<Rightarrow> None
                           | Some (v, r3) \<Rightarrow>
                               (case skip_ws r3 of
                                  [] \<Rightarrow> None
                                | e # r4 \<Rightarrow>
                                    if e = CHR '','' then
                                      (case parse_members (skip_ws r4) of
                                         None \<Rightarrow> None
                                       | Some (m, t) \<Rightarrow> Some ((k, v) # m, t))
                                    else if e = CHR ''}'' then Some ([(k, v)], r4)
                                    else None)))))"
  by pat_completeness auto
termination
  by (relation "measure length") (auto dest: member_rest_shorter)

definition parse_object :: "string \<Rightarrow> (json_report \<times> string) option" where
  "parse_object s =
     (case s of
        [] \<Rightarrow> None
      | c # r \<Rightarrow>
          if c \<noteq> CHR ''{'' then None
          else (case skip_ws r of
                  [] \<Rightarrow> None
                | d # r1 \<Rightarrow> if d = CHR ''}'' then Some ([], r1) else parse_members (d # r1)))"

text \<open>A later member with the same key replaces the value of an earlier one.\<close>

fun dict_set :: "unicode \<Rightarrow> unicode list \<Rightarrow> json_report \<Rightarrow> json_report" where
  "dict_set k v [] = [(k, v)]"
| "dict_set k v ((k', v') # rest) = (if k' = k then (k', v) # rest else (k', v') # dict_set k v rest)"

definition dict_of_pairs :: "json_report \<Rightarrow> json_report" where
  "dict_of_pairs pairs = foldl (\<lambda>d (k, v). dict_set k v d) [] pairs"

definition json_loads :: "string \<Rightarrow> json_report option" where
  "json_loads s =
     (case parse_object (skip_ws s) of
        None \<Rightarrow> None
      | Some (pairs, r) \<Rightarrow> if skip_ws r = [] then Some (dict_of_pairs pairs) else None)"

declare parse_items.simps [simp del] parse_members.simps [simp del]

declare parse_items.simps [simp del] parse_members.simps [simp del]

text \<open>
  The strings of the statements: a Python string has code points up to 0x10FFFF; a string has
  no surrogate pair when no high surrogate is directly followed by a low surrogate. A string
  of scalar values, as every string decoded from UTF-8 is, has no surrogate at all.
\<close>

definition python_str :: "unicode \<Rightarrow> bool" where
  "python_str s \<longleftrightarrow> list_all (\<lambda>c. c < 0x110000) s"

fun no_surrogate_pair :: "unicode \<Rightarrow> bool" where
  "no_surrogate_pair [] = True"
| "no_surrogate_pair [c] = True"
| "no_surrogate_pair (c # d # cs) =
     (\<not> (high_surrogate c \<and> low_surrogate d) \<and> no_surrogate_pair (d # cs))"

definition unpaired :: "unicode \<Rightarrow> bool" where
  "unpaired s \<longleftrightarrow> python_str s \<and> no_surrogate_pair s"

definition scalar_value :: "nat \<Rightarrow> bool" where
  "scalar_value c \<longleftrightarrow> c < 0xD800 \<or> (0xE000 \<le> c \<and> c < 0x110000)"

text \<open>The string \<open>s\<close>, written by the encoder and followed by anything, is read back as \<open>t\<close>.\<close>

definition decodes_to :: "unicode \<Rightarrow> unicode \<Rightarrow> bool" where
  "decodes_to s t \<longleftrightarrow>
     (\<forall>rest. scanstring (concat (map escape_char s) @ CHR 0x22 # rest) = Some (t, rest))"

definition item_decodes_to :: "unicode \<times> unicode list \<Rightarrow> unicode \<times> unicode list \<Rightarrow> bool" where
  "item_decodes_to item item' \<longleftrightarrow>
     decodes_to (fst item) (fst item') \<and> list_all2 decodes_to (snd item) (snd item')"

text \<open>A report of \<open>check_urls\<close>, its strings read as lists of code points.\<close>

definition json_of_report :: "(string \<times> string list) list \<Rightarrow> json_report" where
  "json_of_report rep = map (\<lambda>(k, urls). (code_points k, map code_points urls)) rep"

section \<open>The aggregation loop\<close>

lemma spec_bucket_in_keys: "spec_bucket st \<in> set bucket_keys"
  by (cases st) (simp_all add: bucket_keys_def)

lemma distinct_bucket_keys: "distinct bucket_keys"
  by (simp add: bucket_keys_def)

lemma categorize_step_table:
  "categorize_step rep (url, st) = dict_append (spec_bucket st) url rep"
  by (cases st) simp_all

lemma dict_append_present:
  "k \<in> set (map fst rep) \<Longrightarrow> distinct (map fst rep) \<Longrightarrow>
   dict_append k url rep = Inr (map (\<lambda>(k', us). (k', if k' = k then us @ [url] else us)) rep)"
proof (induction rep)
  case Nil
  then show ?case by simp
next
  case (Cons p rep)
  obtain k' us where p: "p = (k', us)" by (cases p)
  show ?case
  proof (cases "k' = k")
    case True
    with Cons.prems p have "k \<notin> set (map fst rep)" by auto
    then have "map (\<lambda>(k', us). (k', if k' = k then us @ [url] else us)) rep = rep"
      by (induction rep) auto
    with True p show ?thesis by simp
  next
    case False
    with Cons p show ?thesis by auto
  qed
qed

lemma categorize_loop_buckets:
  "map fst rep = bucket_keys \<Longrightarrow>
   categorize_loop results rep =
     Inr (map (\<lambda>(k, us). (k, us @ urls_of_bucket results k)) rep)"
proof (induction results arbitrary: rep)
  case Nil
  then show ?case by (simp add: urls_of_bucket_def)
next
  case (Cons r results)
  obtain url st where r: "r = (url, st)" by (cases r)
  let ?rep' = "map (\<lambda>(k', us). (k', if k' = spec_bucket st then us @ [url] else us)) rep"
  have step: "categorize_step rep r = Inr ?rep'"
    using Cons.prems spec_bucket_in_keys [of st] distinct_bucket_keys
    by (simp add: r categorize_step_table dict_append_present del: categorize_step.simps)
  have keys: "map fst ?rep' = bucket_keys"
    using Cons.prems by (simp add: comp_def case_prod_unfold)
  have "categorize_loop (r # results) rep = categorize_loop results ?rep'"
    using step by simp
  also have "\<dots> = Inr (map (\<lambda>(k, us). (k, us @ urls_of_bucket results k)) ?rep')"
    by (rule Cons.IH [OF keys])
  also have "map (\<lambda>(k, us). (k, us @ urls_of_bucket results k)) ?rep' =
             map (\<lambda>(k, us). (k, us @ urls_of_bucket (r # results) k)) rep"
    by (auto simp: r urls_of_bucket_def)
  finally show ?case .
qed

lemma categorize_eq:
  "categorize results = Inr (map (\<lambda>k. (k, urls_of_bucket results k)) bucket_keys)"
proof -
  have "map fst status_results_init = bucket_keys"
    by (simp add: status_results_init_def bucket_keys_def)
  then have "categorize results =
      Inr (map (\<lambda>(k, us). (k, us @ urls_of_bucket results k)) status_results_init)"
    unfolding categorize_def by (rule categorize_loop_buckets)
  then show ?thesis
    by (simp add: status_results_init_def bucket_keys_def)
qed

lemma concat_buckets_mset:
  "distinct ks \<Longrightarrow>
   mset (concat (map (urls_of_bucket results) ks)) =
   mset (map fst (filter (\<lambda>r. spec_bucket (snd r) \<in> set ks) results))"
proof (induction ks)
  case Nil
  then show ?case by simp
next
  case (Cons k ks)
  then have "k \<notin> set ks" and "distinct ks" by simp_all
  have "mset (map fst (filter (\<lambda>r. spec_bucket (snd r) \<in> set (k # ks)) results)) =
        mset (urls_of_bucket results k) +
        mset (map fst (filter (\<lambda>r. spec_bucket (snd r) \<in> set ks) results))"
    using \<open>k \<notin> set ks\<close> unfolding urls_of_bucket_def
    by (induction results) auto
  with Cons.IH [OF \<open>distinct ks\<close>] show ?case by simp
qed

lemma all_buckets_mset:
  "mset (concat (map (urls_of_bucket results) bucket_keys)) = mset (map fst results)"
  by (simp add: concat_buckets_mset [OF distinct_bucket_keys] spec_bucket_in_keys)

lemma spec_bucket_table:
  "spec_bucket st =
     (case st of
        SInt n \<Rightarrow>
          if n = 200 then ''200''
          else if n = 301 \<or> n = 302 then ''301_302''
          else if n = 403 then ''403''
          else if n = 404 then ''404''
          else if 500 \<le> n then ''500+''
          else ''error''
      | SStr s \<Rightarrow> ''error'')"
  by (cases st) simp_all

lemma in_keyed_map:
  "(k, v) \<in> set (map (\<lambda>k. (k, f k)) ks) \<longleftrightarrow> k \<in> set ks \<and> v = f k"
  by auto

section \<open>The probes\<close>

lemma fetch_status_caught:
  "caught ending \<Longrightarrow> \<exists>st. fetch_status url ending log = (Inr (url, st), log @ [url])"
  by (cases ending) (auto simp: caught_def fetch_status_def)

lemma gather_caught:
  "list_all (\<lambda>p. caught (snd p)) probes \<Longrightarrow>
   \<exists>results. gather probes log = (Inr results, log @ map fst probes) \<and>
              map fst results = map fst probes"
proof (induction probes arbitrary: log)
  case Nil
  then show ?case by simp
next
  case (Cons p probes)
  obtain url ending where p: "p = (url, ending)" by (cases p)
  from Cons.prems p have c: "caught ending" and rest: "list_all (\<lambda>p. caught (snd p)) probes"
    by simp_all
  from fetch_status_caught [OF c] obtain st where
    f: "fetch_status url ending log = (Inr (url, st), log @ [url])" by blast
  from Cons.IH [OF rest, of "log @ [url]"] obtain results where
    g: "gather probes (log @ [url]) = (Inr results, (log @ [url]) @ map fst probes)"
    and m: "map fst results = map fst probes" by blast
  show ?case
    by (simp add: p f g m)
qed

lemma gather_log_prefix:
  "\<exists>n. snd (gather probes log) = log @ take n (map fst probes)"
proof (induction probes arbitrary: log)
  case Nil
  then show ?case by simp
next
  case (Cons p probes)
  obtain url ending where p: "p = (url, ending)" by (cases p)
  obtain r where f: "fetch_status url ending log = (r, log @ [url])"
    by (simp add: fetch_status_def)
  show ?case
  proof (cases r)
    case (Inl e)
    then have "snd (gather (p # probes) log) = log @ take 1 (map fst (p # probes))"
      by (simp add: p f)
    then show ?thesis by blast
  next
    case (Inr v)
    from Cons.IH [of "log @ [url]"] obtain n where
      n: "snd (gather probes (log @ [url])) = (log @ [url]) @ take n (map fst probes)" by blast
    have "snd (gather (p # probes) log) = snd (gather probes (log @ [url]))"
      by (simp add: p f Inr split: prod.splits sum.splits)
    also have "\<dots> = log @ take (Suc n) (map fst (p # probes))"
      by (simp add: n p)
    finally show ?thesis by blast
  qed
qed

lemma check_urls_log: "snd (check_urls probes log) = snd (gather probes log)"
  by (simp add: check_urls_def split: prod.splits sum.splits)

lemma count_list_distinct_le: "distinct xs \<Longrightarrow> count_list xs x \<le> 1"
  by (induction xs) auto

lemma count_list_distinct_mem: "distinct xs \<Longrightarrow> x \<in> set xs \<Longrightarrow> count_list xs x = 1"
  by (induction xs) auto

text \<open>
  The clauses are tried in the order written: an exception that is an \<open>aiohttp.ClientError\<close>
  gives "error" whatever else it is, and one that no clause matches leaves \<open>fetch_status\<close>.
\<close>

lemma fetch_status_clause_order:
  "is_client_error e \<Longrightarrow> fst (fetch_status url (Raises e) log) = Inr (url, SStr ''error'')"
  by (simp add: fetch_status_def)

lemma fetch_status_propagates:
  "\<not> is_client_error e \<Longrightarrow> \<not> is_timeout_error e \<Longrightarrow> \<not> is_exception e \<Longrightarrow>
   fst (fetch_status url (Raises e) log) = Inl (Propagated e)"
  by (simp add: fetch_status_def)

section \<open>The rows of the CSV text\<close>

definition field_end :: "string \<Rightarrow> bool" where
  "field_end rest \<longleftrightarrow> (case rest of [] \<Rightarrow> True | c # _ \<Rightarrow> c = CHR '','' \<or> c = CHR 0x0D)"

lemma read_quoted_roundtrip:
  "field_end rest \<Longrightarrow>
   read_quoted (concat (map (\<lambda>c. if c = CHR 0x22 then [c, c] else [c]) f) @ CHR 0x22 # rest) =
     Some (f, rest)"
proof (induction f)
  case Nil
  then show ?case by (auto simp: field_end_def split: list.splits)
next
  case (Cons c f)
  then show ?case by (simp add: prepend_def)
qed

lemma read_plain_roundtrip:
  "field_end rest \<Longrightarrow> \<not> list_ex csv_special f \<Longrightarrow> read_plain (f @ rest) = (f, rest)"
proof (induction f)
  case Nil
  then show ?case by (cases rest) (auto simp: field_end_def)
next
  case (Cons c f)
  then show ?case by (simp add: csv_special_def)
qed

lemma read_field_roundtrip:
  assumes "field_end rest"
  shows "read_field (csv_field f @ rest) = Some (f, rest)"
proof (cases "list_ex csv_special f")
  case True
  then show ?thesis
    by (simp add: csv_field_def read_field_def read_quoted_roundtrip [OF assms])
next
  case False
  have plain: "read_plain (f @ rest) = (f, rest)"
    using assms False by (rule read_plain_roundtrip)
  have "f @ rest = [] \<or> (\<exists>c cs. f @ rest = c # cs \<and> c \<noteq> CHR 0x22)"
  proof (cases f)
    case Nil
    with assms show ?thesis by (cases rest) (auto simp: field_end_def)
  next
    case (Cons c cs)
    with False show ?thesis by (auto simp: csv_special_def)
  qed
  then show ?thesis
  proof
    assume "f @ rest = []"
    then show ?thesis using False by (simp add: csv_field_def read_field_def)
  next
    assume "\<exists>c cs. f @ rest = c # cs \<and> c \<noteq> CHR 0x22"
    then obtain c cs where e: "f @ rest = c # cs" and c: "c \<noteq> CHR 0x22" by blast
    have "read_field (f @ rest) = Some (read_plain (f @ rest))"
      unfolding read_field_def e using c by simp
    with plain False show ?thesis by (simp add: csv_field_def)
  qed
qed

lemma read_record_roundtrip:
  "row \<noteq> [] \<Longrightarrow> read_record (csv_join row @ CHR 0x0D # CHR 0x0A # rest) = Some (row, rest)"
proof (induction row)
  case Nil
  then show ?case by simp
next
  case (Cons f row)
  show ?case
  proof (cases row)
    case Nil
    have "read_field (csv_field f @ CHR 0x0D # CHR 0x0A # rest) = Some (f, CHR 0x0D # CHR 0x0A # rest)"
      by (rule read_field_roundtrip) (simp add: field_end_def)
    then show ?thesis
      by (subst read_record.simps) (simp add: Nil)
  next
    case (Cons g fs)
    let ?tail = "csv_join row @ CHR 0x0D # CHR 0x0A # rest"
    from Cons have ne: "row \<noteq> []" by simp
    have "read_field (csv_field f @ CHR '','' # ?tail) = Some (f, CHR '','' # ?tail)"
      by (rule read_field_roundtrip) (simp add: field_end_def)
    moreover have "read_record ?tail = Some (row, rest)"
      by (rule Cons.IH [OF ne])
    moreover have "csv_join (f # row) @ CHR 0x0D # CHR 0x0A # rest = csv_field f @ CHR '','' # ?tail"
      by (simp add: Cons)
    ultimately show ?thesis
      by (subst read_record.simps) simp
  qed
qed

lemma read_record_writerow:
  "row \<noteq> [] \<Longrightarrow> read_record (writerow row [] @ rest) = Some (row, rest)"
proof (cases "csv_join row = []")
  case False
  assume "row \<noteq> []"
  with False show ?thesis
    using read_record_roundtrip [of row rest] by (simp add: writerow_def)
next
  case True
  assume ne: "row \<noteq> []"
  have row: "row = [[]]"
  proof (cases row)
    case Nil
    with ne show ?thesis by simp
  next
    case (Cons f fs)
    with True show ?thesis
      by (cases fs) (auto simp: csv_field_def split: if_splits)
  qed
  have "read_field (CHR 0x22 # CHR 0x22 # CHR 0x0D # CHR 0x0A # rest) = Some ([], CHR 0x0D # CHR 0x0A # rest)"
    by (simp add: read_field_def)
  then have "read_record (CHR 0x22 # CHR 0x22 # CHR 0x0D # CHR 0x0A # rest) = Some ([[]], rest)"
    by (subst read_record.simps) simp
  with True ne row show ?thesis by (simp add: writerow_def)
qed

lemma writerow_nonempty: "writerow row [] \<noteq> []"
  by (simp add: writerow_def)

lemma read_records_roundtrip:
  "list_all (\<lambda>row. row \<noteq> []) rows \<Longrightarrow>
   read_records (concat (map (\<lambda>row. writerow row []) rows)) = Some rows"
proof (induction rows)
  case Nil
  then show ?case by (subst read_records.simps) simp
next
  case (Cons row rows)
  then have ne: "row \<noteq> []" and rest: "list_all (\<lambda>row. row \<noteq> []) rows" by simp_all
  have "read_record (writerow row [] @ concat (map (\<lambda>row. writerow row []) rows)) =
        Some (row, concat (map (\<lambda>row. writerow row []) rows))"
    using ne by (rule read_record_writerow)
  moreover have "read_records (concat (map (\<lambda>row. writerow row []) rows)) = Some rows"
    by (rule Cons.IH [OF rest])
  ultimately show ?case
    by (subst read_records.simps) (simp add: writerow_nonempty)
qed

lemma writerow_append: "writerow row buf = buf @ writerow row []"
  by (simp add: writerow_def)

lemma write_urls_eq:
  "write_urls status urls buf = buf @ concat (map (\<lambda>url. writerow [url, status] []) urls)"
proof (induction urls arbitrary: buf)
  case Nil
  then show ?case by simp
next
  case (Cons url urls)
  show ?case
    by (simp add: Cons.IH writerow_append [of _ buf])
qed

lemma write_items_eq:
  "write_items data buf =
     buf @ concat (map (\<lambda>row. writerow row [])
       (concat (map (\<lambda>(status, urls). map (\<lambda>url. [url, status]) urls) data)))"
proof (induction data arbitrary: buf)
  case Nil
  then show ?case by simp
next
  case (Cons item data)
  obtain status urls where item: "item = (status, urls)" by (cases item)
  show ?case
    by (simp add: item Cons.IH write_urls_eq comp_def)
qed

lemma generate_csv_rows:
  "generate_csv data =
     concat (map (\<lambda>row. writerow row [])
       ([''URL'', ''Status''] #
        concat (map (\<lambda>(status, urls). map (\<lambda>url. [url, status]) urls) data)))"
  by (simp add: generate_csv_def write_items_eq)

text \<open>The text written for a small report; a URL with a comma is quoted.\<close>

lemma generate_csv_example:
  "generate_csv [(''200'', [''http://a'', ''http://b/x,y'']), (''404'', []), (''error'', [''http://c''])] =
     ''URL,Status'' @ [CHR 0x0D, CHR 0x0A] @
     ''http://a,200'' @ [CHR 0x0D, CHR 0x0A] @
     ''\"http://b/x,y\",200'' @ [CHR 0x0D, CHR 0x0A] @
     ''http://c,error'' @ [CHR 0x0D, CHR 0x0A]"
  by code_simp

section \<open>Decoding what generate_json writes\<close>

lemma hex_value_hex_digit: "d < 16 \<Longrightarrow> hex_value (hex_digit d) = Some d"
  by (auto simp: hex_value_def hex_digit_def Let_def)

lemma hex4_digits:
  assumes "n < 65536"
  shows "hex4 (hex_digit (n div 4096)) (hex_digit (n div 256 mod 16))
              (hex_digit (n div 16 mod 16)) (hex_digit (n mod 16)) = Some n"
proof -
  from assms have d: "n div 4096 < 16" by arith
  have e1: "n div 16 * 16 + n mod 16 = n"
    by (rule div_mult_mod_eq)
  have "n div 16 div 16 = n div 256"
    by (simp add: div_mult2_eq [symmetric])
  with div_mult_mod_eq [of "n div 16" 16] have e2: "n div 256 * 16 + n div 16 mod 16 = n div 16"
    by simp
  have "n div 256 div 16 = n div 4096"
    by (simp add: div_mult2_eq [symmetric])
  with div_mult_mod_eq [of "n div 256" 16] have e3: "n div 4096 * 16 + n div 256 mod 16 = n div 256"
    by simp
  have "((n div 4096 * 16 + n div 256 mod 16) * 16 + n div 16 mod 16) * 16 + n mod 16 = n"
    by (simp only: e3 e2 e1)
  with d show ?thesis
    by (simp add: hex4_def hex_value_hex_digit)
qed

lemma decode_hex_escape:
  assumes "n < 65536"
  shows "decode_escape (tl (hex_escape n) @ tail) =
           (if high_surrogate n then
              (case low_surrogate_ahead tail of
                 None \<Rightarrow> Some (n, tail)
               | Some (uni2, rest2) \<Rightarrow> Some (0x10000 + ((n - 0xD800) * 1024 + (uni2 - 0xDC00)), rest2))
            else Some (n, tail))"
  by (simp add: decode_escape_def hex_escape_def hex4_digits [OF assms])

lemma low_surrogate_ahead_hex_escape:
  assumes "n < 65536"
  shows "low_surrogate_ahead (hex_escape n @ tail) = (if low_surrogate n then Some (n, tail) else None)"
  by (simp add: low_surrogate_ahead_def hex_escape_def hex4_digits [OF assms])

lemma hex_escape_Cons: "hex_escape n = CHR 0x5C # tl (hex_escape n)"
  by (simp add: hex_escape_def)

lemma surrogates_of_code_point:
  assumes "0x10000 \<le> c" and "c < 0x110000"
  shows "high_surrogate (0xD800 + (c - 0x10000) div 1024 mod 1024)"
    and "low_surrogate (0xDC00 + (c - 0x10000) mod 1024)"
    and "0x10000 + ((0xD800 + (c - 0x10000) div 1024 mod 1024 - 0xD800) * 1024 +
           (0xDC00 + (c - 0x10000) mod 1024 - 0xDC00)) = c"
proof -
  define q where "q = (c - 0x10000) div 1024"
  define r where "r = (c - 0x10000) mod 1024"
  from assms have q: "q < 1024" unfolding q_def by arith
  have r: "r < 1024" unfolding r_def by simp
  have "q * 1024 + r = c - 0x10000"
    unfolding q_def r_def by (rule div_mult_mod_eq)
  with assms have c: "0x10000 + (q * 1024 + r) = c" by simp
  from q have m: "q mod 1024 = q" by simp
  show "high_surrogate (0xD800 + (c - 0x10000) div 1024 mod 1024)"
    unfolding high_surrogate_def q_def [symmetric] m using q by simp
  show "low_surrogate (0xDC00 + (c - 0x10000) mod 1024)"
    unfolding low_surrogate_def r_def [symmetric] using r by simp
  show "0x10000 + ((0xD800 + (c - 0x10000) div 1024 mod 1024 - 0xD800) * 1024 +
           (0xDC00 + (c - 0x10000) mod 1024 - 0xDC00)) = c"
    unfolding q_def [symmetric] r_def [symmetric] m using c by simp
qed

lemma escape_char_cases:
  obtains (short) e where "escape_char c = [CHR 0x5C, e]" "e \<noteq> CHR ''u''" "unescape e = Some c"
  | (plain) "escape_char c = [char_of c]" "0x20 \<le> c" "c \<le> 0x7E" "c \<noteq> 0x22" "c \<noteq> 0x5C"
  | (bmp) "escape_char c = hex_escape c" "c < 0x10000"
  | (pair) "escape_char c = hex_escape (0xD800 + (c - 0x10000) div 1024 mod 1024) @
                            hex_escape (0xDC00 + (c - 0x10000) mod 1024)" "0x10000 \<le> c"
proof -
  consider "c = 0x22" | "c = 0x5C" | "c = 0x0A" | "c = 0x0D" | "c = 0x09" | "c = 0x0C" | "c = 0x08"
    | "c \<noteq> 0x22" "c \<noteq> 0x5C" "0x20 \<le> c" "c \<le> 0x7E"
    | "c \<noteq> 0x22" "c \<noteq> 0x5C" "c \<noteq> 0x0A" "c \<noteq> 0x0D" "c \<noteq> 0x09" "c \<noteq> 0x0C" "c \<noteq> 0x08"
      "\<not> (0x20 \<le> c \<and> c \<le> 0x7E)" "c < 0x10000"
    | "c \<noteq> 0x22" "c \<noteq> 0x5C" "c \<noteq> 0x0A" "c \<noteq> 0x0D" "c \<noteq> 0x09" "c \<noteq> 0x0C" "c \<noteq> 0x08"
      "\<not> (0x20 \<le> c \<and> c \<le> 0x7E)" "\<not> c < 0x10000"
    by blast
  then show ?thesis
  proof cases
    case 1 then show ?thesis by (intro short [of "CHR 0x22"]) (simp_all add: escape_char_def unescape_def)
  next
    case 2 then show ?thesis by (intro short [of "CHR 0x5C"]) (simp_all add: escape_char_def unescape_def)
  next
    case 3 then show ?thesis by (intro short [of "CHR ''n''"]) (simp_all add: escape_char_def unescape_def)
  next
    case 4 then show ?thesis by (intro short [of "CHR ''r''"]) (simp_all add: escape_char_def unescape_def)
  next
    case 5 then show ?thesis by (intro short [of "CHR ''t''"]) (simp_all add: escape_char_def unescape_def)
  next
    case 6 then show ?thesis by (intro short [of "CHR ''f''"]) (simp_all add: escape_char_def unescape_def)
  next
    case 7 then show ?thesis by (intro short [of "CHR ''b''"]) (simp_all add: escape_char_def unescape_def)
  next
    case 8 then show ?thesis by (intro plain) (auto simp: escape_char_def)
  next
    case 9 then show ?thesis by (intro bmp) (auto simp: escape_char_def)
  next
    case 10 then show ?thesis by (intro pair) (auto simp: escape_char_def)
  qed
qed

lemma scanstring_escape_char:
  assumes valid: "c < 0x110000"
    and ahead: "high_surrogate c \<Longrightarrow> low_surrogate_ahead tail = None"
  shows "scanstring (escape_char c @ tail) = prepend_code_point c (scanstring tail)"
proof (cases c rule: escape_char_cases)
  case (short e)
  then show ?thesis
    by (simp add: scanstring.simps decode_escape_def)
next
  case plain
  have o: "(of_char (char_of c) :: nat) = c" using plain by simp
  have "char_of c \<noteq> CHR 0x22"
  proof
    assume "char_of c = CHR 0x22"
    then have "(of_char (char_of c) :: nat) = of_char (CHR 0x22)" by simp
    with o plain show False by simp
  qed
  moreover have "char_of c \<noteq> CHR 0x5C"
  proof
    assume "char_of c = CHR 0x5C"
    then have "(of_char (char_of c) :: nat) = of_char (CHR 0x5C)" by simp
    with o plain show False by simp
  qed
  ultimately show ?thesis
    using plain o by (simp add: scanstring.simps)
next
  case bmp
  have "scanstring (hex_escape c @ tail) =
        (case decode_escape (tl (hex_escape c) @ tail) of
           None \<Rightarrow> None
         | Some (uni, rest) \<Rightarrow> prepend_code_point uni (scanstring rest))"
    by (subst hex_escape_Cons) (simp add: scanstring.simps)
  also have "decode_escape (tl (hex_escape c) @ tail) = Some (c, tail)"
    using ahead by (simp add: decode_hex_escape [OF bmp(2)])
  finally show ?thesis by (simp add: bmp(1))
next
  case pair
  let ?s1 = "0xD800 + (c - 0x10000) div 1024 mod 1024"
  let ?s2 = "0xDC00 + (c - 0x10000) mod 1024"
  note sur = surrogates_of_code_point [OF pair(2) valid]
  have s1: "?s1 < 65536" using sur(1) by (simp add: high_surrogate_def)
  have s2: "?s2 < 65536" using sur(2) by (simp add: low_surrogate_def)
  have "scanstring (hex_escape ?s1 @ hex_escape ?s2 @ tail) =
        (case decode_escape (tl (hex_escape ?s1) @ hex_escape ?s2 @ tail) of
           None \<Rightarrow> None
         | Some (uni, rest) \<Rightarrow> prepend_code_point uni (scanstring rest))"
    by (subst hex_escape_Cons) (simp add: scanstring.simps)
  also have "decode_escape (tl (hex_escape ?s1) @ hex_escape ?s2 @ tail) = Some (c, tail)"
    unfolding decode_hex_escape [OF s1] low_surrogate_ahead_hex_escape [OF s2]
    using sur by simp
  finally show ?thesis by (simp add: pair(1))
qed

lemma low_surrogate_ahead_escape_char:
  assumes "c < 0x110000" and "\<not> low_surrogate c"
  shows "low_surrogate_ahead (escape_char c @ tail) = None"
proof (cases c rule: escape_char_cases)
  case (short e)
  then show ?thesis by (simp add: low_surrogate_ahead_def)
next
  case plain
  have o: "(of_char (char_of c) :: nat) = c" using plain by simp
  have "char_of c \<noteq> CHR 0x5C"
  proof
    assume "char_of c = CHR 0x5C"
    then have "(of_char (char_of c) :: nat) = of_char (CHR 0x5C)" by simp
    with o plain show False by simp
  qed
  with plain show ?thesis by (simp add: low_surrogate_ahead_def)
next
  case bmp
  with assms show ?thesis by (simp add: low_surrogate_ahead_hex_escape)
next
  case pair
  note sur = surrogates_of_code_point [OF pair(2) assms(1)]
  have s1: "0xD800 + (c - 0x10000) div 1024 mod 1024 < 65536"
    using sur(1) by (simp add: high_surrogate_def)
  have "\<not> low_surrogate (0xD800 + (c - 0x10000) div 1024 mod 1024)"
    using sur(1) by (simp add: high_surrogate_def low_surrogate_def)
  then show ?thesis
    by (simp add: pair(1) low_surrogate_ahead_hex_escape [OF s1])
qed

lemma low_surrogate_ahead_quote: "low_surrogate_ahead (CHR 0x22 # rest) = None"
  by (simp add: low_surrogate_ahead_def)

lemma scanstring_roundtrip:
  "python_str s \<Longrightarrow> no_surrogate_pair s \<Longrightarrow>
   scanstring (concat (map escape_char s) @ CHR 0x22 # rest) = Some (s, rest)"
proof (induction s rule: no_surrogate_pair.induct)
  case 1
  then show ?case by (simp add: scanstring.simps)
next
  case (2 c)
  then have v: "c < 0x110000" by (simp add: python_str_def)
  have "scanstring (escape_char c @ CHR 0x22 # rest) = prepend_code_point c (scanstring (CHR 0x22 # rest))"
    using v by (rule scanstring_escape_char) (rule low_surrogate_ahead_quote)
  then show ?case by (simp add: scanstring.simps prepend_code_point_def)
next
  case (3 c d cs)
  let ?tail = "concat (map escape_char (d # cs)) @ CHR 0x22 # rest"
  from "3.prems" have v: "c < 0x110000" and vd: "d < 0x110000" and vs: "python_str (d # cs)"
    by (simp_all add: python_str_def)
  from "3.prems" have np: "\<not> (high_surrogate c \<and> low_surrogate d)" and ns: "no_surrogate_pair (d # cs)"
    by simp_all
  have "scanstring (escape_char c @ ?tail) = prepend_code_point c (scanstring ?tail)"
    using v
  proof (rule scanstring_escape_char)
    assume "high_surrogate c"
    with np have "\<not> low_surrogate d" by simp
    with vd have "low_surrogate_ahead (escape_char d @ concat (map escape_char cs) @ CHR 0x22 # rest) = None"
      by (rule low_surrogate_ahead_escape_char)
    then show "low_surrogate_ahead ?tail = None" by simp
  qed
  also have "scanstring ?tail = Some (d # cs, rest)"
    using vs ns by (rule "3.IH")
  finally show ?case by (simp add: prepend_code_point_def)
qed

lemma decodes_to_unpaired: "unpaired s \<Longrightarrow> decodes_to s s"
  unfolding unpaired_def decodes_to_def by (simp add: scanstring_roundtrip)

lemma scanstring_decodes_to:
  "decodes_to s t \<Longrightarrow> scanstring (concat (map escape_char s) @ CHR 0x22 # rest) = Some (t, rest)"
  unfolding decodes_to_def by simp

lemma skip_ws_spaces: "skip_ws (replicate n (CHR '' '') @ r) = skip_ws r"
  by (induction n) (simp_all add: is_ws_def)

lemma skip_ws_newline_indent: "skip_ws (newline_indent l @ r) = skip_ws r"
  by (simp add: newline_indent_def is_ws_def skip_ws_spaces)

lemma encode_basestring_ascii_Cons:
  "encode_basestring_ascii x @ rest = CHR 0x22 # concat (map escape_char x) @ CHR 0x22 # rest"
  by (simp add: encode_basestring_ascii_def)

lemma join_encoded_starts_with_quote:
  "xs \<noteq> [] \<Longrightarrow>
   \<exists>body. join_chunks sep (map encode_basestring_ascii xs) @ rest = CHR 0x22 # body"
proof (cases xs)
  case Nil
  assume "xs \<noteq> []"
  with Nil show ?thesis by simp
next
  case (Cons x ys)
  then show ?thesis
    by (cases ys) (simp_all add: encode_basestring_ascii_def)
qed

lemma parse_items_decodes:
  "xs \<noteq> [] \<Longrightarrow> list_all2 decodes_to xs ys \<Longrightarrow>
   parse_items (join_chunks (CHR '','' # newline_indent l) (map encode_basestring_ascii xs) @
                newline_indent l' @ CHR '']'' # rest) = Some (ys, rest)"
proof (induction xs arbitrary: ys)
  case Nil
  then show ?case by simp
next
  case (Cons x xs)
  from Cons.prems obtain y ys' where ys: "ys = y # ys'" and dx: "decodes_to x y"
    and dxs: "list_all2 decodes_to xs ys'"
    by (auto simp: list_all2_Cons1)
  note sr = scanstring_decodes_to [OF dx]
  show ?case
  proof (cases xs)
    case Nil
    with dxs have e: "ys' = []" by simp
    have "skip_ws (newline_indent l' @ CHR '']'' # rest) = CHR '']'' # rest"
      by (simp add: skip_ws_newline_indent is_ws_def)
    then show ?thesis
      by (simp add: Nil ys e encode_basestring_ascii_Cons parse_items.simps sr)
  next
    case (Cons z zs)
    let ?tail = "join_chunks (CHR '','' # newline_indent l) (map encode_basestring_ascii xs) @
                newline_indent l' @ CHR '']'' # rest"
    from Cons have ne: "xs \<noteq> []" by simp
    from join_encoded_starts_with_quote [OF ne] obtain body where b: "?tail = CHR 0x22 # body"
      by blast
    have sk: "skip_ws (newline_indent l @ ?tail) = ?tail"
      unfolding skip_ws_newline_indent by (simp only: b) (simp add: is_ws_def)
    have whole: "join_chunks (CHR '','' # newline_indent l) (map encode_basestring_ascii (x # xs)) @
                newline_indent l' @ CHR '']'' # rest =
          CHR 0x22 # concat (map escape_char x) @ CHR 0x22 # CHR '','' # newline_indent l @ ?tail"
      by (simp add: Cons encode_basestring_ascii_def)
    have "parse_items (CHR 0x22 # concat (map escape_char x) @ CHR 0x22 # CHR '','' # newline_indent l @ ?tail)
          = (case parse_items ?tail of None \<Rightarrow> None | Some (ys, t) \<Rightarrow> Some (y # ys, t))"
      by (simp add: parse_items.simps sr is_ws_def sk)
    also have "parse_items ?tail = Some (ys', rest)"
      by (rule Cons.IH [OF ne dxs])
    finally show ?thesis
      by (simp only: whole) (simp add: ys)
  qed
qed

lemma parse_array_decodes:
  assumes d: "list_all2 decodes_to v w"
  shows "parse_array (iterencode_list v l @ rest) = Some (w, rest)"
proof (cases "v = []")
  case True
  with d have "w = []" by simp
  with True show ?thesis
    by (simp add: iterencode_list_def parse_array_def is_ws_def)
next
  case False
  let ?items = "join_chunks (CHR '','' # newline_indent (Suc l)) (map encode_basestring_ascii v) @
                newline_indent l @ CHR '']'' # rest"
  from join_encoded_starts_with_quote [OF False] obtain body where b: "?items = CHR 0x22 # body"
    by blast
  have sk: "skip_ws (newline_indent (Suc l) @ ?items) = CHR 0x22 # body"
    unfolding skip_ws_newline_indent by (simp only: b) (simp add: is_ws_def)
  have "iterencode_list v l @ rest = CHR ''['' # newline_indent (Suc l) @ ?items"
    using False by (simp add: iterencode_list_def)
  then have "parse_array (iterencode_list v l @ rest) = parse_items (CHR 0x22 # body)"
    by (simp add: parse_array_def sk)
  also have "\<dots> = parse_items ?items" by (simp only: b)
  also have "\<dots> = Some (w, rest)" by (rule parse_items_decodes [OF False d])
  finally show ?thesis .
qed

lemma iterencode_list_starts_with_bracket:
  "\<exists>body. iterencode_list v l @ rest = CHR ''['' # body"
  by (simp add: iterencode_list_def)

lemma join_members_starts_with_quote:
  "ms \<noteq> [] \<Longrightarrow>
   \<exists>body. join_chunks sep
       (map (encode_item lv) ms) @ rest
     = CHR 0x22 # body"
proof (cases ms)
  case Nil
  assume "ms \<noteq> []"
  with Nil show ?thesis by simp
next
  case (Cons m ys)
  then show ?thesis
    by (cases ys) (simp_all add: encode_item_def encode_basestring_ascii_def)
qed

lemma parse_member_step:
  assumes dk: "decodes_to k k'" and dv: "list_all2 decodes_to v v'"
  shows "parse_members (CHR 0x22 # concat (map escape_char k) @ CHR 0x22 # CHR '':'' # CHR '' '' #
                  iterencode_list v lv @ rest) =
     (case skip_ws rest of
        [] \<Rightarrow> None
      | e # r4 \<Rightarrow>
          if e = CHR '','' then
            (case parse_members (skip_ws r4) of
               None \<Rightarrow> None
             | Some (m, t) \<Rightarrow> Some ((k', v') # m, t))
          else if e = CHR ''}'' then Some ([(k', v')], r4)
          else None)"
proof -
  obtain body where b: "iterencode_list v lv @ rest = CHR ''['' # body"
    using iterencode_list_starts_with_bracket by blast
  have sk: "skip_ws (CHR '' '' # iterencode_list v lv @ rest) = iterencode_list v lv @ rest"
    by (simp add: is_ws_def b)
  have sk1: "skip_ws (CHR '':'' # CHR '' '' # iterencode_list v lv @ rest) =
      CHR '':'' # CHR '' '' # iterencode_list v lv @ rest"
    by (simp add: is_ws_def)
  show ?thesis
    by (simp add: parse_members.simps scanstring_decodes_to [OF dk] sk sk1 parse_array_decodes [OF dv]
          del: skip_ws.simps)
qed

lemma parse_members_decodes:
  "ms \<noteq> [] \<Longrightarrow> list_all2 item_decodes_to ms ms' \<Longrightarrow>
   parse_members (join_chunks (CHR '','' # newline_indent l) (map (encode_item lv) ms) @
       newline_indent l' @ CHR ''}'' # rest) = Some (ms', rest)"
proof (induction ms arbitrary: ms')
  case Nil
  then show ?case by simp
next
  case (Cons m ms)
  obtain k v where m: "m = (k, v)" by (cases m)
  from Cons.prems obtain m' ms'' where ms0: "ms' = m' # ms''" and dm: "item_decodes_to m m'"
    and dms: "list_all2 item_decodes_to ms ms''"
    by (auto simp: list_all2_Cons1)
  obtain k' v' where m': "m' = (k', v')" by (cases m')
  from ms0 m' have ms': "ms' = (k', v') # ms''" by simp
  from dm m m' have dk: "decodes_to k k'" and dv: "list_all2 decodes_to v v'"
    by (simp_all add: item_decodes_to_def)
  note step = parse_member_step [OF dk dv]
  show ?case
  proof (cases ms)
    case Nil
    with dms have e: "ms'' = []" by simp
    have "skip_ws (newline_indent l' @ CHR ''}'' # rest) = CHR ''}'' # rest"
      by (simp add: skip_ws_newline_indent is_ws_def)
    then show ?thesis
      using step [of lv "newline_indent l' @ CHR ''}'' # rest"]
      by (simp add: Nil m ms' e encode_item_def encode_basestring_ascii_def)
  next
    case (Cons y ys)
    let ?tail = "join_chunks (CHR '','' # newline_indent l) (map (encode_item lv) ms) @
       newline_indent l' @ CHR ''}'' # rest"
    from Cons have ne: "ms \<noteq> []" by simp
    from join_members_starts_with_quote [OF ne] obtain body where b: "?tail = CHR 0x22 # body"
      by blast
    have sk: "skip_ws (newline_indent l @ ?tail) = ?tail"
      unfolding skip_ws_newline_indent by (simp only: b) (simp add: is_ws_def)
    have whole: "join_chunks (CHR '','' # newline_indent l) (map (encode_item lv) (m # ms)) @
       newline_indent l' @ CHR ''}'' # rest =
          CHR 0x22 # concat (map escape_char k) @ CHR 0x22 # CHR '':'' # CHR '' '' #
            iterencode_list v lv @ (CHR '','' # newline_indent l @ ?tail)"
      by (simp add: Cons m encode_item_def encode_basestring_ascii_def)
    have "parse_members (CHR 0x22 # concat (map escape_char k) @ CHR 0x22 # CHR '':'' # CHR '' '' #
            iterencode_list v lv @ (CHR '','' # newline_indent l @ ?tail))
          = (case parse_members ?tail of None \<Rightarrow> None | Some (m', t) \<Rightarrow> Some ((k', v') # m', t))"
    proof -
      have sk2: "skip_ws (CHR '','' # newline_indent l @ ?tail) = CHR '','' # newline_indent l @ ?tail"
        by (simp add: is_ws_def)
      show ?thesis
        unfolding step by (simp add: sk sk2 del: skip_ws.simps)
    qed
    also have "parse_members ?tail = Some (ms'', rest)"
      by (rule Cons.IH [OF ne dms])
    finally show ?thesis
      by (simp only: whole) (simp add: ms')
  qed
qed

lemma parse_object_decodes:
  assumes d: "list_all2 item_decodes_to data data'"
  shows "parse_object (iterencode_dict data l @ rest) = Some (data', rest)"
proof (cases "data = []")
  case True
  with d have "data' = []" by simp
  with True show ?thesis
    by (simp add: iterencode_dict_def parse_object_def is_ws_def)
next
  case False
  let ?members = "join_chunks (CHR '','' # newline_indent (Suc l)) (map (encode_item (Suc l)) data) @
       newline_indent l @ CHR ''}'' # rest"
  from join_members_starts_with_quote [OF False] obtain body where b: "?members = CHR 0x22 # body"
    by blast
  have sk: "skip_ws (newline_indent (Suc l) @ ?members) = CHR 0x22 # body"
    unfolding skip_ws_newline_indent by (simp only: b) (simp add: is_ws_def)
  have "iterencode_dict data l @ rest = CHR ''{'' # newline_indent (Suc l) @ ?members"
    using False by (simp add: iterencode_dict_def)
  then have "parse_object (iterencode_dict data l @ rest) = parse_members (CHR 0x22 # body)"
    by (simp add: parse_object_def sk)
  also have "\<dots> = parse_members ?members" by (simp only: b)
  also have "\<dots> = Some (data', rest)" by (rule parse_members_decodes [OF False d])
  finally show ?thesis .
qed

lemma dict_set_fresh: "k \<notin> fst ` set d \<Longrightarrow> dict_set k v d = d @ [(k, v)]"
  by (induction d) auto

lemma dict_of_pairs_distinct_aux:
  "distinct (map fst (d @ ps)) \<Longrightarrow> foldl (\<lambda>d (k, v). dict_set k v d) d ps = d @ ps"
proof (induction ps arbitrary: d)
  case Nil
  then show ?case by simp
next
  case (Cons p ps)
  obtain k v where p: "p = (k, v)" by (cases p)
  from Cons.prems p have fresh: "k \<notin> fst ` set d" by auto
  from Cons.prems p have "distinct (map fst ((d @ [(k, v)]) @ ps))" by simp
  from Cons.IH [OF this] show ?case
    by (simp add: p dict_set_fresh [OF fresh])
qed

lemma dict_of_pairs_distinct: "distinct (map fst ps) \<Longrightarrow> dict_of_pairs ps = ps"
  using dict_of_pairs_distinct_aux [of "[]" ps] by (simp add: dict_of_pairs_def)

lemma json_loads_decodes:
  assumes "list_all2 item_decodes_to data data'" and "distinct (map fst data')"
  shows "json_loads (generate_json data) = Some data'"
proof -
  have "\<exists>body. generate_json data = CHR ''{'' # body"
    by (simp add: generate_json_def iterencode_dict_def)
  then obtain body where b: "generate_json data = CHR ''{'' # body" ..
  have "skip_ws (generate_json data) = generate_json data"
    by (simp add: b is_ws_def)
  moreover have "parse_object (generate_json data) = Some (data', [])"
    using parse_object_decodes [OF assms(1), of 0 "[]"] by (simp add: generate_json_def)
  ultimately show ?thesis
    by (simp add: json_loads_def dict_of_pairs_distinct [OF assms(2)])
qed

lemma scalar_values_unpaired: "list_all scalar_value s \<Longrightarrow> unpaired s"
proof -
  assume a: "list_all scalar_value s"
  then have "python_str s"
    unfolding python_str_def by (induction s) (auto simp: scalar_value_def)
  moreover from a have "no_surrogate_pair s"
    by (induction s rule: no_surrogate_pair.induct) (auto simp: scalar_value_def high_surrogate_def)
  ultimately show ?thesis by (simp add: unpaired_def)
qed

lemma code_points_unpaired: "unpaired (code_points s)"
proof (rule scalar_values_unpaired)
  have "scalar_value (of_char c)" for c :: char
    using nat_of_char_less_256 [of c] unfolding scalar_value_def by arith
  then show "list_all scalar_value (code_points s)"
    by (simp add: code_points_def list_all_iff)
qed


text \<open>The text written for a small report with a character of the basic plane and one beyond it.\<close>

lemma replicate_indent:
  "replicate 4 x = [x, x, x, x]" "replicate 8 x = [x, x, x, x, x, x, x, x]"
  by (simp_all add: numeral_eq_Suc)

lemma generate_json_example:
  "generate_json [(code_points ''200'', [code_points ''http://a'', code_points ''http://b/'' @ [0x4F8B, 0x1F600]]),
                  (code_points ''error'', [])] =
     ''{'' @ [CHR 0x0A] @
     ''    \"200\": ['' @ [CHR 0x0A] @
     ''        \"http://a\",'' @ [CHR 0x0A] @
     ''        \"http://b/'' @ [CHR 0x5C] @ ''u4f8b'' @ [CHR 0x5C] @ ''ud83d'' @ [CHR 0x5C] @ ''ude00\"'' @ [CHR 0x0A] @
     ''    ],'' @ [CHR 0x0A] @
     ''    \"error\": []'' @ [CHR 0x0A] @
     ''}''"
  by (simp add: generate_json_def iterencode_dict_def encode_item_def iterencode_list_def
        encode_basestring_ascii_def escape_char_def hex_escape_def hex_digit_def newline_indent_def
        code_points_def char_of_eq_iff take_bit_eq_mod replicate_indent)

text \<open>A report whose strings hold code points below 256 only comes back.\<close>

lemma inj_code_points: "inj code_points"
  unfolding code_points_def by (rule inj_mapI) (rule inj_of_char)

lemma json_of_report_roundtrip:
  assumes "distinct (map fst rep)"
  shows "json_loads (generate_json (json_of_report rep)) = Some (json_of_report rep)"
proof (rule json_loads_decodes)
  have "item_decodes_to item item" if "item \<in> set (json_of_report rep)" for item
  proof -
    from that obtain k urls where i: "item = (code_points k, map code_points urls)"
      by (auto simp: json_of_report_def)
    have "list_all2 decodes_to (map code_points urls) (map code_points urls)"
      by (simp add: list_all2_same decodes_to_unpaired code_points_unpaired)
    then show ?thesis
      by (simp add: i item_decodes_to_def decodes_to_unpaired code_points_unpaired)
  qed
  then show "list_all2 item_decodes_to (json_of_report rep) (json_of_report rep)"
    by (simp add: list_all2_same)
next
  have "map fst (json_of_report rep) = map code_points (map fst rep)"
    by (simp add: json_of_report_def comp_def case_prod_unfold)
  moreover have "distinct (map code_points (map fst rep))"
    using assms inj_on_subset [OF inj_code_points subset_UNIV]
    by (subst distinct_map) blast
  ultimately show "distinct (map fst (json_of_report rep))"
    by (simp only:)
qed

section \<open>The claims\<close>

text \<open>
  C1: bucket \<open>k\<close> of the report built by the aggregation loop of \<open>check_urls\<close> holds
  exactly the URLs of the results whose status the fixed table sends to \<open>k\<close>: 200 to "200";
  301 and 302 to "301_302"; 403 to "403"; 404 to "404"; every integer from 500 on to "500+"; every
  other integer and every string status (timeout, error) to "error".
\<close>

theorem aggregator_bucket_table:
  "categorize results =
     Inr (map (\<lambda>k. (k, map fst (filter (\<lambda>(url, st).
            (case st of
               SInt n \<Rightarrow>
                 if n = 200 then ''200''
                 else if n = 301 \<or> n = 302 then ''301_302''
                 else if n = 403 then ''403''
                 else if n = 404 then ''404''
                 else if 500 \<le> n then ''500+''
                 else ''error''
             | SStr s \<Rightarrow> ''error'') = k) results)))
       [''200'', ''301_302'', ''403'', ''404'', ''500+'', ''error''])"
proof -
  have "urls_of_bucket results k = map fst (filter (\<lambda>(url, st).
            (case st of
               SInt n \<Rightarrow>
                 if n = 200 then ''200''
                 else if n = 301 \<or> n = 302 then ''301_302''
                 else if n = 403 then ''403''
                 else if n = 404 then ''404''
                 else if 500 \<le> n then ''500+''
                 else ''error''
             | SStr s \<Rightarrow> ''error'') = k) results)" for k
    unfolding urls_of_bucket_def spec_bucket_table case_prod_unfold ..
  then show ?thesis
    by (simp only: categorize_eq bucket_keys_def)
qed

theorem aggregator_bucket_table_witness:
  "categorize [(''http://a'', SInt 200), (''http://b'', SInt 503), (''http://c'', SStr ''timeout''),
               (''http://d'', SInt 201), (''http://e'', SInt 302), (''http://f'', SStr ''error''),
               (''http://g'', SInt 404), (''http://h'', SInt 403), (''http://i'', SInt 301)] =
   Inr [(''200'', [''http://a'']), (''301_302'', [''http://e'', ''http://i'']),
        (''403'', [''http://h'']), (''404'', [''http://g'']), (''500+'', [''http://b'']),
        (''error'', [''http://c'', ''http://d'', ''http://f''])]"
  using aggregator_bucket_table [of "[(''http://a'', SInt 200), (''http://b'', SInt 503),
               (''http://c'', SStr ''timeout''),
               (''http://d'', SInt 201), (''http://e'', SInt 302), (''http://f'', SStr ''error''),
               (''http://g'', SInt 404), (''http://h'', SInt 403), (''http://i'', SInt 301)]"]
  by simp

text \<open>
  C2: for results with pairwise distinct URLs the six bucket lists hold as many entries
  as there are results, no URL occurs twice in them, every input URL occurs in them, and each input
  URL lies in exactly one bucket.
\<close>

theorem report_partitions_urls:
  assumes "distinct (map fst results)"
  shows "\<exists>rep. categorize results = Inr rep \<and>
           sum_list (map (\<lambda>(k, us). length us) rep) = length results \<and>
           distinct (concat (map snd rep)) \<and>
           set (concat (map snd rep)) = set (map fst results) \<and>
           (\<forall>url \<in> set (map fst results). \<exists>!k. \<exists>us. (k, us) \<in> set rep \<and> url \<in> set us)"
proof -
  let ?rep = "map (\<lambda>k. (k, urls_of_bucket results k)) bucket_keys"
  have cat: "categorize results = Inr ?rep" by (rule categorize_eq)
  have snd_rep: "map snd ?rep = map (urls_of_bucket results) bucket_keys"
    by (simp add: comp_def)
  have ms: "mset (concat (map snd ?rep)) = mset (map fst results)"
    unfolding snd_rep by (rule all_buckets_mset)
  have len: "sum_list (map (\<lambda>(k, us). length us) ?rep) = length results"
  proof -
    have "sum_list (map (\<lambda>(k, us). length us) ?rep) = length (concat (map snd ?rep))"
      by (simp add: length_concat comp_def)
    also have "\<dots> = length results"
      using mset_eq_length [OF ms] by simp
    finally show ?thesis .
  qed
  have dist: "distinct (concat (map snd ?rep))"
    using mset_eq_imp_distinct_iff [OF ms] assms by simp
  have st: "set (concat (map snd ?rep)) = set (map fst results)"
    by (rule mset_eq_setD [OF ms])
  have mem: "(k, us) \<in> set ?rep \<longleftrightarrow> k \<in> set bucket_keys \<and> us = urls_of_bucket results k"
    for k us
    by (rule in_keyed_map)
  have uniq: "\<exists>!k. \<exists>us. (k, us) \<in> set ?rep \<and> url \<in> set us"
    if "url \<in> set (map fst results)" for url
  proof -
    from that obtain s where s: "(url, s) \<in> set results" by auto
    have only: "s' = s" if "(url, s') \<in> set results" for s'
      using assms s that by (meson eq_key_imp_eq_value)
    have here: "url \<in> set (urls_of_bucket results (spec_bucket s))"
      using s unfolding urls_of_bucket_def by force
    show ?thesis
    proof (rule ex1I [of _ "spec_bucket s"])
      show "\<exists>us. (spec_bucket s, us) \<in> set ?rep \<and> url \<in> set us"
        unfolding mem using here spec_bucket_in_keys by blast
    next
      fix k
      assume "\<exists>us. (k, us) \<in> set ?rep \<and> url \<in> set us"
      then have "url \<in> set (urls_of_bucket results k)"
        unfolding mem by blast
      then obtain s' where "(url, s') \<in> set results" "spec_bucket s' = k"
        unfolding urls_of_bucket_def by auto
      with only show "k = spec_bucket s" by auto
    qed
  qed
  show ?thesis
  proof (intro exI conjI ballI)
    show "categorize results = Inr ?rep" by (rule cat)
  qed (use len dist st uniq in blast)+
qed

theorem report_partitions_urls_witness:
  "distinct (map fst [(''http://a'', SInt 200), (''http://b'', SStr ''timeout''), (''http://c'', SInt 500)]) \<and>
   (\<exists>rep. categorize [(''http://a'', SInt 200), (''http://b'', SStr ''timeout''), (''http://c'', SInt 500)] = Inr rep \<and>
      sum_list (map (\<lambda>(k, us). length us) rep) =
        length [(''http://a'', SInt 200), (''http://b'', SStr ''timeout''), (''http://c'', SInt 500)] \<and>
      distinct (concat (map snd rep)) \<and>
      set (concat (map snd rep)) =
        set (map fst [(''http://a'', SInt 200), (''http://b'', SStr ''timeout''), (''http://c'', SInt 500)]) \<and>
      (\<forall>url \<in> set (map fst [(''http://a'', SInt 200), (''http://b'', SStr ''timeout''), (''http://c'', SInt 500)]).
         \<exists>!k. \<exists>us. (k, us) \<in> set rep \<and> url \<in> set us))"
proof -
  have d: "distinct (map fst [(''http://a'', SInt 200), (''http://b'', SStr ''timeout''),
                              (''http://c'', SInt 500)])"
    by simp
  from d report_partitions_urls [OF d] show ?thesis
    by (rule conjI)
qed

text \<open>
  C4: whenever the request ends with a response or with a raised exception that is an
  instance of \<open>Exception\<close>, \<open>fetch_status\<close> returns a tuple of the URL and a status: the
  response's status code, the string "timeout", the string "error", or "error: " followed by the
  exception's text. Nothing is propagated.
\<close>

theorem fetch_status_returns_outcome:
  assumes "\<And>e. ending = Raises e \<Longrightarrow> is_exception e"
  shows "\<exists>st. fst (fetch_status url ending log) = Inr (url, st) \<and>
           ((\<exists>n. ending = Response n \<and> st = SInt n) \<or> st = SStr ''timeout'' \<or> st = SStr ''error'' \<or>
            (\<exists>e. ending = Raises e \<and> st = SStr (''error: '' @ message e)))"
proof (cases ending)
  case (Response n)
  then show ?thesis by (simp add: fetch_status_def)
next
  case (Raises e)
  with assms have "is_exception e" by simp
  with Raises show ?thesis by (simp add: fetch_status_def)
qed

theorem fetch_status_returns_outcome_witness:
  "fst (fetch_status ''http://a'' (Raises \<lparr>is_client_error = False, is_timeout_error = False,
         is_exception = True, message = ''boom''\<rparr>) []) = Inr (''http://a'', SStr ''error: boom'')"
  using fetch_status_returns_outcome [of "Raises \<lparr>is_client_error = False, is_timeout_error = False,
         is_exception = True, message = ''boom''\<rparr>" "''http://a''" "[]"]
  by (simp add: fetch_status_def)

text \<open>
  C5: a request that ends with \<open>asyncio.TimeoutError\<close> (the exception of the total
  timeout of 5 seconds, which is not an \<open>aiohttp.ClientError\<close>) makes \<open>fetch_status\<close> return
  the status "timeout".
\<close>

theorem fetch_status_timeout:
  assumes "is_timeout_error e" and "\<not> is_client_error e"
  shows "fst (fetch_status url (Raises e) log) = Inr (url, SStr ''timeout'')"
  using assms by (simp add: fetch_status_def)

theorem fetch_status_timeout_witness:
  "fst (fetch_status ''http://slow'' (Raises \<lparr>is_client_error = False, is_timeout_error = True,
         is_exception = True, message = ''''\<rparr>) []) = Inr (''http://slow'', SStr ''timeout'')"
  using fetch_status_timeout [of "\<lparr>is_client_error = False, is_timeout_error = True,
         is_exception = True, message = ''''\<rparr>" "''http://slow''" "[]"]
  by simp




text \<open>
  C7: the report always has exactly the six keys "200", "301_302", "403", "404", "500+",
  "error", in this order; \<open>check_urls\<close> returns such a report whenever no exception is
  propagated by a probe; for no URLs every key maps to the empty list.
\<close>

theorem report_keys_always_present:
  "(\<exists>rep. categorize results = Inr rep \<and>
      map fst rep = [''200'', ''301_302'', ''403'', ''404'', ''500+'', ''error'']) \<and>
   (\<forall>rep. fst (check_urls probes log) = Inr rep \<longrightarrow>
      map fst rep = [''200'', ''301_302'', ''403'', ''404'', ''500+'', ''error'']) \<and>
   (list_all (\<lambda>p. caught (snd p)) probes \<longrightarrow>
      (\<exists>rep. fst (check_urls probes log) = Inr rep)) \<and>
   check_urls [] log =
     (Inr [(''200'', []), (''301_302'', []), (''403'', []), (''404'', []), (''500+'', []), (''error'', [])], log)"
proof (intro conjI allI impI)
  show "\<exists>rep. categorize results = Inr rep \<and>
      map fst rep = [''200'', ''301_302'', ''403'', ''404'', ''500+'', ''error'']"
    by (simp add: categorize_eq bucket_keys_def)
next
  fix rep
  assume a: "fst (check_urls probes log) = Inr rep"
  obtain r log' where g: "gather probes log = (r, log')" by (cases "gather probes log")
  show "map fst rep = [''200'', ''301_302'', ''403'', ''404'', ''500+'', ''error'']"
  proof (cases r)
    case (Inl e)
    with a g show ?thesis by (simp add: check_urls_def)
  next
    case (Inr results)
    with a g have "categorize results = Inr rep" by (simp add: check_urls_def)
    then show ?thesis by (auto simp: categorize_eq bucket_keys_def)
  qed
next
  assume "list_all (\<lambda>p. caught (snd p)) probes"
  from gather_caught [OF this, of log] obtain results where
    "gather probes log = (Inr results, log @ map fst probes)" by blast
  then show "\<exists>rep. fst (check_urls probes log) = Inr rep"
    by (simp add: check_urls_def categorize_eq)
next
  show "check_urls [] log =
     (Inr [(''200'', []), (''301_302'', []), (''403'', []), (''404'', []), (''500+'', []), (''error'', [])], log)"
    by (simp add: check_urls_def categorize_def status_results_init_def)
qed

theorem report_keys_always_present_witness:
  "list_all (\<lambda>p. caught (snd p)) [(''http://a'', Response 200), (''http://b'', Response 404)] \<and>
   fst (check_urls [(''http://a'', Response 200), (''http://b'', Response 404)] []) =
     Inr [(''200'', [''http://a'']), (''301_302'', []), (''403'', []), (''404'', [''http://b'']),
          (''500+'', []), (''error'', [])] \<and>
   map fst [(''200'', [''http://a'']), (''301_302'', []), (''403'', []), (''404'', [''http://b'']),
          (''500+'', []), (''error'', [])] =
     [''200'', ''301_302'', ''403'', ''404'', ''500+'', ''error'']"
proof -
  have c: "list_all (\<lambda>p. caught (snd p)) [(''http://a'', Response 200), (''http://b'', Response 404)]"
    by (simp add: caught_def)
  have v: "fst (check_urls [(''http://a'', Response 200), (''http://b'', Response 404)] []) =
     Inr [(''200'', [''http://a'']), (''301_302'', []), (''403'', []), (''404'', [''http://b'']),
          (''500+'', []), (''error'', [])]"
    by (simp add: check_urls_def fetch_status_def categorize_def status_results_init_def)
  from report_keys_always_present [of "[]" "[(''http://a'', Response 200), (''http://b'', Response 404)]" "[]"]
  have "map fst [(''200'', [''http://a'']), (''301_302'', []), (''403'', []), (''404'', [''http://b'']),
          (''500+'', []), (''error'', [])] =
     [''200'', ''301_302'', ''403'', ''404'', ''500+'', ''error'']"
    using v by blast
  with c v show ?thesis by blast
qed

text \<open>
  C8: the URLs handed to \<open>check_urls\<close> are the distinct strings of the extracted
  list, compared by exact equality, none merged and none dropped; \<open>session.get\<close> is called at
  most once per URL, and exactly once per URL when no exception is propagated.
\<close>

theorem each_unique_url_probed_once:
  assumes iter: "\<And>S. finite S \<Longrightarrow> distinct (list_of S) \<and> set (list_of S) = S"
    and probes: "map fst probes = unique_urls list_of urls"
  shows "distinct (unique_urls list_of urls) \<and>
         set (unique_urls list_of urls) = set urls \<and>
         (\<forall>u. count_list (snd (check_urls probes [])) u \<le> 1) \<and>
         (list_all (\<lambda>p. caught (snd p)) probes \<longrightarrow>
            snd (check_urls probes []) = unique_urls list_of urls \<and>
            (\<forall>u \<in> set urls. count_list (snd (check_urls probes [])) u = 1))"
proof -
  have d: "distinct (unique_urls list_of urls)" and s: "set (unique_urls list_of urls) = set urls"
    using iter [of "set urls"] by (simp_all add: unique_urls_def)
  have le: "count_list (snd (check_urls probes [])) u \<le> 1" for u
  proof -
    obtain n where "snd (gather probes []) = [] @ take n (map fst probes)"
      using gather_log_prefix [of probes "[]"] by blast
    then have "snd (check_urls probes []) = take n (unique_urls list_of urls)"
      by (simp add: check_urls_log probes)
    moreover have "distinct (take n (unique_urls list_of urls))"
      using d by (rule distinct_take)
    ultimately show ?thesis
      using count_list_distinct_le [of "take n (unique_urls list_of urls)" u] by simp
  qed
  have all: "snd (check_urls probes []) = unique_urls list_of urls \<and>
            (\<forall>u \<in> set urls. count_list (snd (check_urls probes [])) u = 1)"
    if c: "list_all (\<lambda>p. caught (snd p)) probes"
  proof -
    from gather_caught [OF c, of "[]"] have "snd (gather probes []) = map fst probes" by auto
    then have l: "snd (check_urls probes []) = unique_urls list_of urls"
      by (simp add: check_urls_log probes)
    with d s show ?thesis
      using count_list_distinct_mem [of "unique_urls list_of urls"] by simp
  qed
  from d s le all show ?thesis by blast
qed

theorem each_unique_url_probed_once_witness:
  "unique_urls sorted_list_of_set
     [''http://a.com'', ''http://a.com/'', ''http://A.com'', ''http://a.com?x=1'', ''http://a.com''] =
     [''http://A.com'', ''http://a.com'', ''http://a.com/'', ''http://a.com?x=1''] \<and>
   snd (check_urls [(''http://A.com'', Response 200), (''http://a.com'', Response 404),
                    (''http://a.com/'', Response 200), (''http://a.com?x=1'', Response 200)] []) =
     [''http://A.com'', ''http://a.com'', ''http://a.com/'', ''http://a.com?x=1''] \<and>
   count_list (snd (check_urls [(''http://A.com'', Response 200), (''http://a.com'', Response 404),
                    (''http://a.com/'', Response 200), (''http://a.com?x=1'', Response 200)] []))
     ''http://a.com'' = 1"
proof -
  let ?urls = "[''http://a.com'', ''http://a.com/'', ''http://A.com'', ''http://a.com?x=1'', ''http://a.com'']"
  let ?probes = "[(''http://A.com'', Response 200), (''http://a.com'', Response 404),
                    (''http://a.com/'', Response 200), (''http://a.com?x=1'', Response 200)]"
  have u: "unique_urls sorted_list_of_set ?urls =
      [''http://A.com'', ''http://a.com'', ''http://a.com/'', ''http://a.com?x=1'']"
    unfolding unique_urls_def by code_simp
  have iter: "\<And>S::string set. finite S \<Longrightarrow>
      distinct (sorted_list_of_set S) \<and> set (sorted_list_of_set S) = S"
    by simp
  have p: "map fst ?probes = unique_urls sorted_list_of_set ?urls"
    unfolding u by simp
  have c: "list_all (\<lambda>p. caught (snd p)) ?probes"
    by (simp add: caught_def)
  from each_unique_url_probed_once [of sorted_list_of_set ?probes ?urls, OF iter p] c u
  show ?thesis by simp
qed

text \<open>
  C9: the CSV text is the header row \<open>URL,Status\<close> followed by one row per URL of the
  report, in the order of the buckets, each row holding the URL and the name of its bucket;
  read back as CSV it gives exactly these rows, and the data rows are as many as the URLs in
  all buckets.
\<close>

theorem generate_csv_one_row_per_url:
  "generate_csv data =
     concat (map (\<lambda>row. writerow row [])
       ([''URL'', ''Status''] # [[url, status]. (status, urls) \<leftarrow> data, url \<leftarrow> urls])) \<and>
   writerow [''URL'', ''Status''] [] = ''URL,Status'' @ [CHR 0x0D, CHR 0x0A] \<and>
   read_records (generate_csv data) =
     Some ([''URL'', ''Status''] # [[url, status]. (status, urls) \<leftarrow> data, url \<leftarrow> urls]) \<and>
   length [[url, status]. (status, urls) \<leftarrow> data, url \<leftarrow> urls] =
     sum_list (map (\<lambda>(status, urls). length urls) data)"
proof -
  let ?rows = "[[url, status]. (status, urls) \<leftarrow> data, url \<leftarrow> urls]"
  have whole: "generate_csv data = concat (map (\<lambda>row. writerow row []) ([''URL'', ''Status''] # ?rows))"
    using generate_csv_rows [of data] by simp
  have header: "writerow [''URL'', ''Status''] [] = ''URL,Status'' @ [CHR 0x0D, CHR 0x0A]"
    by (simp add: writerow_def csv_field_def csv_special_def)
  have "list_all (\<lambda>row. row \<noteq> []) ?rows"
    by (induction data) (auto simp: list_all_iff)
  then have "list_all (\<lambda>row. row \<noteq> []) ([''URL'', ''Status''] # ?rows)"
    by simp
  then have reread: "read_records (generate_csv data) = Some ([''URL'', ''Status''] # ?rows)"
    unfolding whole by (rule read_records_roundtrip)
  have count: "length ?rows = sum_list (map (\<lambda>(status, urls). length urls) data)"
    by (induction data) auto
  from whole header reread count show ?thesis by blast
qed

theorem generate_csv_one_row_per_url_witness:
  "read_records (generate_csv [(''200'', [''http://a'', ''http://b/x,y'']), (''404'', []),
                               (''error'', [''http://c''])]) =
     Some [[''URL'', ''Status''], [''http://a'', ''200''], [''http://b/x,y'', ''200''],
           [''http://c'', ''error'']]"
  using generate_csv_one_row_per_url [of "[(''200'', [''http://a'', ''http://b/x,y'']), (''404'', []),
                               (''error'', [''http://c''])]", THEN conjunct2, THEN conjunct2, THEN conjunct1]
  by simp




end
